theory Spec2Isabelle
  imports Complex_Main "HOL-Library.AList"
begin

section \<open>Character-level maximum-likelihood language model\<close>

text \<open>
  The notebook \<^verbatim>\<open>MaxLikelihoodModel.ipynb\<close> defines three functions:
  \<^verbatim>\<open>train_char_lm\<close> (counting and normalisation), \<^verbatim>\<open>generate_letter\<close> (one sampling
  step) and \<^verbatim>\<open>generate_text\<close> (the generation loop). They are embedded here as HOL
  functions. Conventions of the embedding:
  \<^item> a Python \<^verbatim>\<open>str\<close> is a \<open>string\<close>, a character a \<open>char\<close>;
  \<^item> a \<^verbatim>\<open>dict\<close>, \<^verbatim>\<open>defaultdict\<close> or \<^verbatim>\<open>Counter\<close> is an association list in insertion
    order with unique keys, looked up with \<open>map_of\<close> and updated with \<open>AList.update\<close>
    (an existing key keeps its place, a new key goes to the end);
  \<^item> Python integers are \<open>int\<close>. The floating-point quotient \<^verbatim>\<open>cnt/s\<close> is embedded
    twice. \<open>normalize\<close>, which \<open>train_char_lm\<close> calls, divides exactly, in the reals:
    it is the reading for the properties of tables, which hold up to rounding.
    \<open>normalize_float\<close> is the same function in IEEE 754 binary64 arithmetic, with the
    conversions \<^verbatim>\<open>float(...)\<close>, their \<^verbatim>\<open>OverflowError\<close>, and the correctly rounded
    division: it is the reading for the properties that depend on rounding. The draws of
    \<^verbatim>\<open>random()\<close> are reals;
  \<^item> an exception is a value \<open>Inl e\<close> of the sum type \<open>py_error + 'a\<close>;
  \<^item> \<^verbatim>\<open>f.read()\<close> is the argument \<open>corpus\<close>: the file system is outside the model;
  \<^item> the random source is the sequence of its draws, \<open>rs :: nat \<Rightarrow> real\<close>, and a counter
    of the draws made so far; the \<open>n\<close>-th call of \<^verbatim>\<open>random()\<close> returns \<open>rs n\<close>.
\<close>

subsection \<open>Python primitives\<close>

datatype py_error = IndexError | KeyError | TypeError | ZeroDivisionError | OverflowError

type_synonym counter = "(char \<times> int) list"
type_synonym dist = "(char \<times> real) list"
type_synonym counts = "(string \<times> counter) list"
type_synonym table = "(string \<times> dist) list"
type_synonym rng = "nat \<Rightarrow> real"

definition py_repeat :: "char \<Rightarrow> int \<Rightarrow> string" where
  \<comment> \<open>\<^verbatim>\<open>"~" * n\<close>: the empty string when \<open>n \<le> 0\<close>.\<close>
  "py_repeat c n = replicate (nat n) c"

definition py_bound :: "nat \<Rightarrow> int \<Rightarrow> nat" where
  \<comment> \<open>A slice bound on a sequence of length \<open>n\<close>: a negative bound counts from the end,
      and the result is clamped to \<open>0 .. n\<close>.\<close>
  "py_bound n i = nat (max 0 (min (int n) (if i < 0 then i + int n else i)))"

definition py_slice :: "'a list \<Rightarrow> int \<Rightarrow> int \<Rightarrow> 'a list" where
  \<comment> \<open>\<^verbatim>\<open>xs[i:j]\<close>\<close>
  "py_slice xs i j =
     (let lo = py_bound (length xs) i; hi = py_bound (length xs) j
      in take (hi - lo) (drop lo xs))"

definition py_slice_from :: "'a list \<Rightarrow> int \<Rightarrow> 'a list" where
  \<comment> \<open>\<^verbatim>\<open>xs[i:]\<close>\<close>
  "py_slice_from xs i = drop (py_bound (length xs) i) xs"

definition py_getitem :: "'a list \<Rightarrow> int \<Rightarrow> py_error + 'a" where
  \<comment> \<open>\<^verbatim>\<open>xs[i]\<close>: a negative index counts from the end, out of range raises.\<close>
  "py_getitem xs i =
     (let n = int (length xs); j = (if i < 0 then i + n else i)
      in if 0 \<le> j \<and> j < n then Inr (xs ! nat j) else Inl IndexError)"

definition py_range :: "int \<Rightarrow> nat list" where
  \<comment> \<open>\<^verbatim>\<open>range(n)\<close>: empty when \<open>n \<le> 0\<close>.\<close>
  "py_range n = [0 ..< nat n]"

subsection \<open>IEEE 754 binary64 arithmetic\<close>

text \<open>
  A finite double is the rational it denotes. \<open>round_double\<close> rounds a rational to the
  nearest double, ties to the even significand: with \<open>e\<close> the binade of the value, not
  below the least normal exponent \<open>- 1022\<close>, the result is the multiple of
  \<open>2 ^ (e - 52)\<close> nearest to it. \<open>py_float\<close> is Python's conversion of an integer,
  explicit in \<^verbatim>\<open>float(n)\<close> and implicit in \<^verbatim>\<open>n / s\<close>: it raises \<^verbatim>\<open>OverflowError\<close> when
  the rounded value is no finite double.
\<close>

type_synonym double = rat

function bitlen :: "int \<Rightarrow> nat" where
  \<comment> \<open>The number of binary digits of a positive integer.\<close>
  "bitlen n = (if n \<le> 0 then 0 else Suc (bitlen (n div 2)))"
  by auto
termination
  by (relation "measure nat") auto

declare bitlen.simps [simp del]

definition rne_div :: "int \<Rightarrow> int \<Rightarrow> int" where
  \<comment> \<open>The integer nearest to \<open>num / den\<close>, ties to even, for \<open>0 \<le> num\<close> and \<open>0 < den\<close>.\<close>
  "rne_div num den =
     (let m = num div den; r = 2 * (num mod den)
      in if r < den then m else if den < r then m + 1 else if even m then m else m + 1)"

definition binade :: "int \<Rightarrow> int \<Rightarrow> int" where
  \<comment> \<open>The exponent \<open>e\<close> with \<open>2 ^ e \<le> p / q < 2 ^ (e + 1)\<close>, for \<open>0 < p\<close> and \<open>0 < q\<close>.\<close>
  "binade p q =
     (let e0 = int (bitlen p) - int (bitlen q)
      in if q * 2 ^ nat e0 \<le> p * 2 ^ nat (- e0) then e0 else e0 - 1)"

definition round_double :: "rat \<Rightarrow> double" where
  "round_double x =
     (let (a, q) = quotient_of x; p = \<bar>a\<bar>
      in if p = 0 then 0
         else (let e = max (binade p q) (- 1022);
                   m = rne_div (p * 2 ^ nat (52 - e)) (q * 2 ^ nat (e - 52))
               in sgn x * of_int (m * 2 ^ nat (e - 52)) / of_int (2 ^ nat (52 - e))))"

definition py_float :: "int \<Rightarrow> py_error + double" where
  "py_float n =
     (let v = round_double (of_int n)
      in if of_int (2 ^ 1024) \<le> \<bar>v\<bar> then Inl OverflowError else Inr v)"

subsection \<open>Training: \<^verbatim>\<open>train_char_lm\<close>\<close>

definition counter_get :: "counter \<Rightarrow> char \<Rightarrow> int" where
  \<comment> \<open>Reading a \<^verbatim>\<open>Counter\<close>: a missing key reads as 0 and is not inserted.\<close>
  "counter_get chars c = (case map_of chars c of None \<Rightarrow> 0 | Some k \<Rightarrow> k)"

definition default_get :: "counts \<Rightarrow> string \<Rightarrow> counter" where
  \<comment> \<open>Reading the \<^verbatim>\<open>defaultdict(Counter)\<close>: a missing history gives a fresh, empty
      \<^verbatim>\<open>Counter\<close> (which \<open>bump\<close> then stores under that history).\<close>
  "default_get lm history = (case map_of lm history of None \<Rightarrow> [] | Some chars \<Rightarrow> chars)"

definition bump :: "counts \<Rightarrow> string \<Rightarrow> char \<Rightarrow> counts" where
  \<comment> \<open>\<^verbatim>\<open>lm[history][char] += 1\<close>\<close>
  "bump lm history c =
     (let chars = default_get lm history
      in AList.update history (AList.update c (counter_get chars c + 1) chars) lm)"

fun count_loop :: "string \<Rightarrow> int \<Rightarrow> nat list \<Rightarrow> counts \<Rightarrow> py_error + counts" where
  \<comment> \<open>\<^verbatim>\<open>for i in range(len(data)-order): history, char = data[i:i+order], data[i+order]; lm[history][char] += 1\<close>\<close>
  "count_loop data order [] lm = Inr lm"
| "count_loop data order (i # rest) lm =
     (let history = py_slice data (int i) (int i + order)
      in case py_getitem data (int i + order) of
           Inl e \<Rightarrow> Inl e
         | Inr c \<Rightarrow> count_loop data order rest (bump lm history c))"

definition normalize :: "counter \<Rightarrow> py_error + dist" where
  \<comment> \<open>\<^verbatim>\<open>s = float(sum(counter.values())); return [(c,cnt/s) for c,cnt in counter.items()]\<close>,
      with the conversion and the division exact. The division raises when \<open>s\<close> is
      zero, which needs a first pair to divide.\<close>
  "normalize counter =
     (let s = real_of_int (sum_list (map snd counter))
      in if counter \<noteq> [] \<and> s = 0 then Inl ZeroDivisionError
         else Inr (map (\<lambda>(c, cnt). (c, real_of_int cnt / s)) counter))"

fun float_items :: "double \<Rightarrow> counter \<Rightarrow> py_error + (char \<times> double) list" where
  \<comment> \<open>\<^verbatim>\<open>[(c,cnt/s) for c,cnt in counter.items()]\<close> in doubles: each \<^verbatim>\<open>cnt/s\<close> converts
      \<open>cnt\<close>, then raises on a zero \<open>s\<close>, then divides and rounds. \<open>s\<close> is an integer
      here, so a quotient is no larger than its numerator and cannot overflow.\<close>
  "float_items s [] = Inr []"
| "float_items s ((c, cnt) # rest) =
     (case py_float cnt of
        Inl e \<Rightarrow> Inl e
      | Inr f \<Rightarrow>
          if s = 0 then Inl ZeroDivisionError
          else (case float_items s rest of
                  Inl e \<Rightarrow> Inl e
                | Inr d \<Rightarrow> Inr ((c, round_double (f / s)) # d)))"

definition normalize_float :: "counter \<Rightarrow> py_error + (char \<times> double) list" where
  \<comment> \<open>\<open>normalize\<close> in doubles: \<^verbatim>\<open>s = float(sum(counter.values()))\<close> rounds the exact
      integer sum, or raises \<^verbatim>\<open>OverflowError\<close>.\<close>
  "normalize_float counter =
     (case py_float (sum_list (map snd counter)) of
        Inl e \<Rightarrow> Inl e
      | Inr s \<Rightarrow> float_items s counter)"

fun normalize_all :: "counts \<Rightarrow> py_error + table" where
  \<comment> \<open>\<^verbatim>\<open>{hist:normalize(chars) for hist, chars in lm.items()}\<close>\<close>
  "normalize_all [] = Inr []"
| "normalize_all ((hist, chars) # rest) =
     (case normalize chars of
        Inl e \<Rightarrow> Inl e
      | Inr d \<Rightarrow> (case normalize_all rest of
                    Inl e \<Rightarrow> Inl e
                  | Inr outlm \<Rightarrow> Inr ((hist, d) # outlm)))"

definition train_char_lm :: "string \<Rightarrow> int \<Rightarrow> py_error + table" where
  "train_char_lm corpus order =
     (let pad = py_repeat CHR ''~'' order;
          data = pad @ corpus
      in case count_loop data order (py_range (int (length data) - order)) [] of
           Inl e \<Rightarrow> Inl e
         | Inr lm \<Rightarrow> normalize_all lm)"

subsection \<open>Generation: \<^verbatim>\<open>generate_letter\<close> and \<^verbatim>\<open>generate_text\<close>\<close>

fun sample :: "dist \<Rightarrow> real \<Rightarrow> char option" where
  \<comment> \<open>\<^verbatim>\<open>for c,v in dist: x = x - v; if x <= 0: return c\<close>. Leaving the loop without a
      return makes the Python function return \<^verbatim>\<open>None\<close>, here \<open>None\<close>.\<close>
  "sample [] x = None"
| "sample ((c, v) # rest) x = (if x - v \<le> 0 then Some c else sample rest (x - v))"

definition generate_letter ::
  "table \<Rightarrow> string \<Rightarrow> int \<Rightarrow> rng \<Rightarrow> nat \<Rightarrow> py_error + (char option \<times> nat)" where
  \<comment> \<open>The result is the returned value with the number of draws made so far. The lookup
      comes before the draw, so a missing key raises without drawing.\<close>
  "generate_letter lm history order rs n =
     (let history = py_slice_from history (- order)
      in case map_of lm history of
           None \<Rightarrow> Inl KeyError
         | Some distr \<Rightarrow> Inr (sample distr (rs n), Suc n))"

record gen_state =
  history :: string
  out :: "char list"
  draws :: nat

definition generate_step :: "table \<Rightarrow> int \<Rightarrow> rng \<Rightarrow> gen_state \<Rightarrow> py_error + gen_state" where
  \<comment> \<open>One iteration: \<^verbatim>\<open>c = generate_letter(lm, history, order); history = history[-order:] + c; out.append(c)\<close>.
      Concatenating a \<^verbatim>\<open>str\<close> with \<^verbatim>\<open>None\<close> raises \<^verbatim>\<open>TypeError\<close>.\<close>
  "generate_step lm order rs st =
     (case generate_letter lm (history st) order rs (draws st) of
        Inl e \<Rightarrow> Inl e
      | Inr (None, n) \<Rightarrow> Inl TypeError
      | Inr (Some c, n) \<Rightarrow>
          Inr \<lparr>history = py_slice_from (history st) (- order) @ [c],
               out = out st @ [c],
               draws = n\<rparr>)"

fun generate_loop :: "table \<Rightarrow> int \<Rightarrow> rng \<Rightarrow> nat \<Rightarrow> gen_state \<Rightarrow> py_error + gen_state" where
  \<comment> \<open>\<open>k\<close> iterations of the loop body from state \<open>st\<close>.\<close>
  "generate_loop lm order rs 0 st = Inr st"
| "generate_loop lm order rs (Suc k) st =
     (case generate_step lm order rs st of
        Inl e \<Rightarrow> Inl e
      | Inr st' \<Rightarrow> generate_loop lm order rs k st')"

definition initial_state :: "int \<Rightarrow> gen_state" where
  \<comment> \<open>\<^verbatim>\<open>history = "~" * order; out = []\<close>, no draw made yet.\<close>
  "initial_state order = \<lparr>history = py_repeat CHR ''~'' order, out = [], draws = 0\<rparr>"

definition generate_text :: "table \<Rightarrow> int \<Rightarrow> int \<Rightarrow> rng \<Rightarrow> py_error + (string \<times> nat)" where
  \<comment> \<open>\<^verbatim>\<open>for i in range(nletters): ...; return "".join(out)\<close>. The result is the text with
      the number of draws the run made.\<close>
  "generate_text lm order nletters rs =
     (case generate_loop lm order rs (length (py_range nletters)) (initial_state order) of
        Inl e \<Rightarrow> Inl e
      | Inr st \<Rightarrow> Inr (out st, draws st))"

subsection \<open>Reading the counting structure\<close>

text \<open>
  The definitions of this subsection are not in the notebook. They name what the proofs
  talk about: the count and the total a counting structure holds for a history, the
  counting loop's effect on a list of (history, character) transitions, and the shape
  every counting structure built by \<open>bump\<close> has.
\<close>

definition cnt_of :: "counts \<Rightarrow> string \<Rightarrow> char \<Rightarrow> int" where
  "cnt_of lm h c = counter_get (default_get lm h) c"

definition total_of :: "counts \<Rightarrow> string \<Rightarrow> int" where
  "total_of lm h = sum_list (map snd (default_get lm h))"

fun bump_all :: "(string \<times> char) list \<Rightarrow> counts \<Rightarrow> counts" where
  "bump_all [] lm = lm"
| "bump_all ((h, c) # ts) lm = bump_all ts (bump lm h c)"

definition counter_wf :: "counter \<Rightarrow> bool" where
  "counter_wf cs = (distinct (map fst cs) \<and> list_all (\<lambda>p. 1 \<le> snd p) cs)"

definition counts_ok :: "counts \<Rightarrow> bool" where
  "counts_ok lm = (distinct (map fst lm) \<and> list_all (\<lambda>p. snd p \<noteq> [] \<and> counter_wf (snd p)) lm)"

definition scale :: "counter \<Rightarrow> dist" where
  \<comment> \<open>What \<open>normalize\<close> returns when it does not raise.\<close>
  "scale cs = map (\<lambda>(c, cnt). (c, real_of_int cnt / real_of_int (sum_list (map snd cs)))) cs"

subsection \<open>The reference definition of the table\<close>

text \<open>
  The specification's count-and-normalise definition, written from its words and not from
  the code: pad the corpus on the left with \<open>order\<close> sentinels; every position \<open>i\<close> of
  the padded stream with \<open>order \<le> i < length\<close> is one observation of the character at
  \<open>i\<close> after the history at positions \<open>i - order .. i - 1\<close>; the count of a pair is the
  number of its observations, the total of a history the sum of its counts; the
  distribution of a history has one pair per observed successor, with the quotient of
  count and total.
\<close>

definition spec_padded :: "string \<Rightarrow> nat \<Rightarrow> string" where
  "spec_padded corpus order = replicate order CHR ''~'' @ corpus"

definition spec_transitions :: "string \<Rightarrow> nat \<Rightarrow> (string \<times> char) list" where
  "spec_transitions corpus order =
     (let padded = spec_padded corpus order
      in map (\<lambda>i. (take order (drop (i - order) padded), padded ! i)) [order ..< length padded])"

definition spec_count :: "string \<Rightarrow> nat \<Rightarrow> string \<Rightarrow> char \<Rightarrow> nat" where
  "spec_count corpus order h c = count_list (spec_transitions corpus order) (h, c)"

definition spec_total :: "string \<Rightarrow> nat \<Rightarrow> string \<Rightarrow> nat" where
  "spec_total corpus order h = (\<Sum>c\<in>UNIV. spec_count corpus order h c)"

definition spec_dist :: "string \<Rightarrow> nat \<Rightarrow> string \<Rightarrow> (char \<times> real) set" where
  "spec_dist corpus order h =
     {(c, real (spec_count corpus order h c) / real (spec_total corpus order h)) | c.
        0 < spec_count corpus order h c}"

definition is_spec_table :: "string \<Rightarrow> nat \<Rightarrow> table \<Rightarrow> bool" where
  \<comment> \<open>A table with unique keys that holds exactly the observed histories, each with its
      reference distribution, one pair per successor.\<close>
  "is_spec_table corpus order t =
     (distinct (map fst t) \<and>
      (\<forall>h. case map_of t h of
              None \<Rightarrow> spec_total corpus order h = 0
            | Some d \<Rightarrow> 0 < spec_total corpus order h \<and> distinct (map fst d) \<and>
                        set d = spec_dist corpus order h))"

section \<open>Normalisation\<close>

subsection \<open>Rounding integers to doubles\<close>

lemma bitlen_pos: "0 < p \<Longrightarrow> bitlen p = Suc (bitlen (p div 2))"
  by (subst bitlen.simps) simp

lemma bitlen_nonpos: "p \<le> 0 \<Longrightarrow> bitlen p = 0"
  by (subst bitlen.simps) simp

lemma bitlen_double: "0 < p \<Longrightarrow> bitlen (2 * p) = Suc (bitlen p)"
  by (simp add: bitlen_pos)

lemma bitlen_one: "bitlen 1 = 1"
  by (simp add: bitlen_pos bitlen_nonpos)

lemma bitlen_bounds: "0 < p \<Longrightarrow> 2 ^ (bitlen p - 1) \<le> p \<and> p < 2 ^ bitlen p"
proof (induction p rule: bitlen.induct)
  case (1 n)
  show ?case
  proof (cases "n div 2 \<le> 0")
    case True
    with "1.prems" have "n = 1" by linarith
    then show ?thesis by (simp add: bitlen_one)
  next
    case False
    then have half: "0 < n div 2" by simp
    then have ih: "2 ^ (bitlen (n div 2) - 1) \<le> n div 2 \<and> n div 2 < 2 ^ bitlen (n div 2)"
      using "1.IH" "1.prems" by simp
    have len: "bitlen n = Suc (bitlen (n div 2))"
      using "1.prems" by (rule bitlen_pos)
    have pos: "0 < bitlen (n div 2)"
      using half by (simp add: bitlen_pos)
    then have "(2::int) ^ bitlen (n div 2) = 2 * 2 ^ (bitlen (n div 2) - 1)"
      by (cases "bitlen (n div 2)") simp_all
    with ih len show ?thesis
      by (simp) linarith
  qed
qed

lemma bitlen_le: "0 < p \<Longrightarrow> p < 2 ^ k \<Longrightarrow> bitlen p \<le> k"
proof (rule ccontr)
  assume p: "0 < p" "p < 2 ^ k" and "\<not> bitlen p \<le> k"
  then have "k \<le> bitlen p - 1" by simp
  then have "(2::int) ^ k \<le> 2 ^ (bitlen p - 1)"
    by (intro power_increasing) simp_all
  with bitlen_bounds [OF p(1)] p(2) show False by linarith
qed

lemma binade_int:
  assumes "0 < p"
  shows "binade p 1 = int (bitlen p) - 1"
proof -
  have len: "0 < bitlen p"
    using assms by (simp add: bitlen_pos)
  then have "nat (int (bitlen p) - 1) = bitlen p - 1" and "nat (- (int (bitlen p) - 1)) = 0"
    by simp_all
  then show ?thesis
    using bitlen_bounds [OF assms] by (simp add: binade_def Let_def bitlen_one)
qed

lemma round_double_of_int:
  "round_double (of_int n) =
     (if n = 0 then 0
      else sgn (of_int n) *
           of_int (rne_div (\<bar>n\<bar> * 2 ^ nat (53 - int (bitlen \<bar>n\<bar>))) (2 ^ nat (int (bitlen \<bar>n\<bar>) - 53))
                     * 2 ^ nat (int (bitlen \<bar>n\<bar>) - 53))
           / of_int (2 ^ nat (53 - int (bitlen \<bar>n\<bar>))))"
proof (cases "n = 0")
  case True
  then show ?thesis by (simp add: round_double_def)
next
  case False
  then have pos: "0 < \<bar>n\<bar>" by simp
  have q: "quotient_of (of_int n) = (n, 1)"
    using quotient_of_int [of n] by (simp add: Rat.of_int_def)
  have e: "max (binade \<bar>n\<bar> 1) (- 1022) = int (bitlen \<bar>n\<bar>) - 1"
    by (simp add: binade_int [OF pos])
  have a: "52 - (int (bitlen \<bar>n\<bar>) - 1) = 53 - int (bitlen \<bar>n\<bar>)"
    and b: "int (bitlen \<bar>n\<bar>) - 1 - 52 = int (bitlen \<bar>n\<bar>) - 53"
    by simp_all
  show ?thesis
    using False unfolding round_double_def q Let_def prod.case e a b by simp
qed

lemma rne_div_one: "rne_div x 1 = x"
  by (simp add: rne_div_def)

lemma rne_div_double: "0 < d \<Longrightarrow> rne_div (2 * x) (2 * d) = rne_div x d"
  by (simp add: rne_div_def Let_def)

lemma round_double_zero: "round_double 0 = 0"
  by (simp add: round_double_def)

lemma round_double_exact:
  assumes "\<bar>n\<bar> < 2 ^ 53"
  shows "round_double (of_int n) = of_int n"
proof (cases "n = 0")
  case True
  then show ?thesis by (simp add: round_double_zero)
next
  case False
  then have pos: "0 < \<bar>n\<bar>" by simp
  have "bitlen \<bar>n\<bar> \<le> 53"
    using pos assms by (rule bitlen_le)
  then have hi: "nat (int (bitlen \<bar>n\<bar>) - 53) = 0"
    by simp
  have "sgn (rat_of_int n) * rat_of_int \<bar>n\<bar> = rat_of_int n"
    by (simp add: sgn_if)
  then show ?thesis
    using False by (simp add: round_double_of_int hi rne_div_one)
qed

lemma round_double_twice:
  "round_double (of_int (2 * n)) = 2 * round_double (of_int n)"
proof (cases "n = 0")
  case True
  then show ?thesis by (simp add: round_double_zero)
next
  case False
  then have pos: "0 < \<bar>n\<bar>" by simp
  define b where "b = bitlen \<bar>n\<bar>"
  have len: "bitlen \<bar>2 * n\<bar> = Suc b"
    using bitlen_double [OF pos] by (simp add: b_def abs_mult)
  have sg: "sgn (rat_of_int (2 * n)) = sgn (rat_of_int n)"
    by (simp add: sgn_if)
  show ?thesis
  proof (cases "b \<le> 52")
    case True
    then have lo: "nat (53 - int (Suc b)) = 52 - b" "nat (53 - int b) = Suc (52 - b)"
      and hi: "nat (int (Suc b) - 53) = 0" "nat (int b - 53) = 0"
      by simp_all
    have "\<bar>2 * n\<bar> * 2 ^ (52 - b) = \<bar>n\<bar> * 2 ^ Suc (52 - b)"
      by (simp add: abs_mult)
    then show ?thesis
      using False unfolding round_double_of_int len b_def [symmetric] sg lo hi
      by (simp add: rne_div_one)
  next
    case False
    then have lo: "nat (53 - int (Suc b)) = 0" "nat (53 - int b) = 0"
      and hi: "nat (int (Suc b) - 53) = Suc (nat (int b - 53))"
      by simp_all
    have "rne_div (\<bar>2 * n\<bar>) (2 ^ Suc (nat (int b - 53))) = rne_div \<bar>n\<bar> (2 ^ nat (int b - 53))"
      using rne_div_double [of "2 ^ nat (int b - 53)" "\<bar>n\<bar>"] by (simp add: abs_mult)
    then show ?thesis
      using \<open>n \<noteq> 0\<close> unfolding round_double_of_int len b_def [symmetric] sg lo hi
      by simp
  qed
qed

lemma py_float_cases: "py_float n = Inl OverflowError \<or> py_float n = Inr (round_double (of_int n))"
  by (simp add: py_float_def Let_def)

lemma py_float_twice:
  assumes "py_float (2 * n) \<noteq> Inl OverflowError"
  shows "py_float (2 * n) = Inr (2 * round_double (of_int n))"
    and "py_float n = Inr (round_double (of_int n))"
proof -
  have small: "\<bar>2 * round_double (rat_of_int n)\<bar> < rat_of_int (2 ^ 1024)"
    using assms unfolding py_float_def Let_def round_double_twice
    by (simp split: if_splits)
  then show "py_float (2 * n) = Inr (2 * round_double (of_int n))"
    unfolding py_float_def Let_def round_double_twice by simp
  have "\<bar>round_double (rat_of_int n)\<bar> \<le> \<bar>2 * round_double (rat_of_int n)\<bar>"
    by (simp add: abs_mult)
  with small show "py_float n = Inr (round_double (of_int n))"
    unfolding py_float_def Let_def by simp
qed

lemma py_float_exact: "\<bar>n\<bar> < 2 ^ 53 \<Longrightarrow> py_float n = Inr (of_int n)"
proof -
  assume small: "\<bar>n\<bar> < 2 ^ 53"
  have "(2::int) ^ 53 \<le> 2 ^ 1024"
    by (intro power_increasing) simp_all
  with small have "\<bar>n\<bar> < 2 ^ 1024" by linarith
  then have "\<bar>rat_of_int n\<bar> < rat_of_int (2 ^ 1024)"
    by (metis of_int_abs of_int_less_iff)
  then show ?thesis
    using small by (simp add: py_float_def Let_def round_double_exact)
qed

subsection \<open>Scaling the counts\<close>

lemma sum_list_scaled: "sum_list (map snd (map (\<lambda>(c, cnt). (c, k * cnt)) counter)) = (k::int) * sum_list (map snd counter)"
  by (induction counter) (auto simp: algebra_simps)

lemma normalize_float_scaled:
  "normalize_float (map (\<lambda>(c, cnt). (c, k * cnt)) counter) =
     (case py_float (k * sum_list (map snd counter)) of
        Inl e \<Rightarrow> Inl e
      | Inr s \<Rightarrow> float_items s (map (\<lambda>(c, cnt). (c, k * cnt)) counter))"
  unfolding normalize_float_def sum_list_scaled ..

lemma float_items_twice:
  "float_items (2 * s) (map (\<lambda>(c, cnt). (c, 2 * cnt)) xs) \<noteq> Inl OverflowError \<Longrightarrow>
   float_items (2 * s) (map (\<lambda>(c, cnt). (c, 2 * cnt)) xs) = float_items s xs"
proof (induction xs)
  case Nil
  show ?case by simp
next
  case (Cons x xs)
  obtain c cnt where x: "x = (c, cnt)" by (cases x)
  have head: "py_float (2 * cnt) \<noteq> Inl OverflowError"
    using Cons.prems by (auto simp: x)
  note fl = py_float_twice [OF head]
  show ?case
  proof (cases "s = 0")
    case True
    then show ?thesis by (simp add: x fl)
  next
    case False
    have rest: "float_items (2 * s) (map (\<lambda>(c, cnt). (c, 2 * cnt)) xs) \<noteq> Inl OverflowError"
      using Cons.prems False by (auto simp: x fl split: sum.splits)
    have quot: "2 * round_double (rat_of_int cnt) / (2 * s) = round_double (rat_of_int cnt) / s"
      by simp
    show ?thesis
      using False Cons.IH [OF rest] by (simp add: x fl quot split: sum.splits)
  qed
qed

lemma float_items_scaled:
  assumes "k \<noteq> 0" and "\<forall>p\<in>set xs. \<bar>snd p\<bar> < 2 ^ 53 \<and> \<bar>k * snd p\<bar> < 2 ^ 53"
  shows "float_items (of_int (k * t)) (map (\<lambda>(c, cnt). (c, k * cnt)) xs) = float_items (of_int t) xs"
  using assms(2)
proof (induction xs)
  case Nil
  show ?case by simp
next
  case (Cons x xs)
  obtain c cnt where x: "x = (c, cnt)" by (cases x)
  have small: "\<bar>cnt\<bar> < 2 ^ 53" "\<bar>k * cnt\<bar> < 2 ^ 53"
    using Cons.prems by (simp_all add: x)
  have quot: "rat_of_int (k * cnt) / rat_of_int (k * t) = rat_of_int cnt / rat_of_int t"
    using assms(1) by simp
  have "float_items (of_int (k * t)) (map (\<lambda>(c, cnt). (c, k * cnt)) xs) = float_items (of_int t) xs"
    using Cons.prems by (intro Cons.IH) simp
  then show ?case
    using assms(1) quot
    by (simp add: x py_float_exact [OF small(1)] py_float_exact [OF small(2)] split: sum.splits)
qed

lemma member_le_sum:
  "\<forall>p\<in>set xs. 0 \<le> snd p \<Longrightarrow> p \<in> set xs \<Longrightarrow> snd p \<le> sum_list (map snd (xs :: counter))"
proof (induction xs)
  case Nil
  then show ?case by simp
next
  case (Cons q xs)
  have "0 \<le> sum_list (map snd xs)"
    using Cons.prems(1) by (intro sum_list_nonneg) auto
  with Cons show ?case by auto
qed

text \<open>
  Claim C9, as stated, fails. The counter \<^verbatim>\<open>{a: 1, b: 2}\<close> normalises to the doubles nearest
  to \<open>1/3\<close> and \<open>2/3\<close>. Multiplied by the positive constant \<open>2 ^ 53 + 1\<close> its counts
  and their sum are no longer doubles: \<^verbatim>\<open>float\<close> rounds them, and the quotients come out
  one unit in the last place lower (\<^verbatim>\<open>0.33333333333333326\<close> and \<^verbatim>\<open>0.6666666666666665\<close>).
\<close>

theorem normalize_float_scale_counterexample:
  "normalize_float (map (\<lambda>(c, cnt). (c, (2 ^ 53 + 1) * cnt)) [(CHR ''a'', 1), (CHR ''b'', 2)])
     = Inr [(CHR ''a'', 6004799503160660 / 2 ^ 54), (CHR ''b'', 6004799503160660 / 2 ^ 53)] \<and>
   normalize_float [(CHR ''a'', 1), (CHR ''b'', 2)]
     = Inr [(CHR ''a'', 6004799503160661 / 2 ^ 54), (CHR ''b'', 6004799503160661 / 2 ^ 53)]"
  by code_simp

text \<open>
  Claim C9, amended. Doubling every raw count leaves the result of normalisation
  unchanged, distribution or \<^verbatim>\<open>ZeroDivisionError\<close> alike, whenever normalising the doubled
  counts does not raise \<^verbatim>\<open>OverflowError\<close>. Multiplying every raw count by a positive
  integer \<open>k\<close> leaves it unchanged whenever the counts are non-negative and the scaled
  total is below \<open>2 ^ 53\<close>, so that every scaled count is still a double.
\<close>

theorem normalize_float_scale:
  "(normalize_float (map (\<lambda>(c, cnt). (c, 2 * cnt)) counter) \<noteq> Inl OverflowError \<longrightarrow>
      normalize_float (map (\<lambda>(c, cnt). (c, 2 * cnt)) counter) = normalize_float counter) \<and>
   (0 < k \<and> (\<forall>p\<in>set counter. 0 \<le> snd p) \<and> k * sum_list (map snd counter) < 2 ^ 53 \<longrightarrow>
      normalize_float (map (\<lambda>(c, cnt). (c, k * cnt)) counter) = normalize_float counter)"
proof (intro conjI impI)
  let ?t = "sum_list (map snd counter)"
  assume ok: "normalize_float (map (\<lambda>(c, cnt). (c, 2 * cnt)) counter) \<noteq> Inl OverflowError"
  have total: "py_float (2 * ?t) \<noteq> Inl OverflowError"
  proof
    assume "py_float (2 * ?t) = Inl OverflowError"
    then have "normalize_float (map (\<lambda>(c, cnt). (c, 2 * cnt)) counter) = Inl OverflowError"
      unfolding normalize_float_scaled by simp
    with ok show False by simp
  qed
  note fl = py_float_twice [OF total]
  have run: "normalize_float (map (\<lambda>(c, cnt). (c, 2 * cnt)) counter)
               = float_items (2 * round_double (of_int ?t)) (map (\<lambda>(c, cnt). (c, 2 * cnt)) counter)"
    unfolding normalize_float_scaled fl by simp
  with ok have "float_items (2 * round_double (of_int ?t)) (map (\<lambda>(c, cnt). (c, 2 * cnt)) counter)
                  \<noteq> Inl OverflowError"
    by simp
  then have "float_items (2 * round_double (of_int ?t)) (map (\<lambda>(c, cnt). (c, 2 * cnt)) counter)
               = float_items (round_double (of_int ?t)) counter"
    by (rule float_items_twice)
  with run show "normalize_float (map (\<lambda>(c, cnt). (c, 2 * cnt)) counter) = normalize_float counter"
    by (simp add: normalize_float_def fl)
next
  let ?t = "sum_list (map snd counter)"
  assume "0 < k \<and> (\<forall>p\<in>set counter. 0 \<le> snd p) \<and> k * ?t < 2 ^ 53"
  then have k: "0 < k" and nonneg: "\<forall>p\<in>set counter. 0 \<le> snd p" and small: "k * ?t < 2 ^ 53"
    by simp_all
  have t0: "0 \<le> ?t"
    using nonneg by (intro sum_list_nonneg) auto
  have le: "?t \<le> k * ?t"
    using k t0 by (simp add: mult_le_cancel_right1)
  have entries: "\<forall>p\<in>set counter. \<bar>snd p\<bar> < 2 ^ 53 \<and> \<bar>k * snd p\<bar> < 2 ^ 53"
  proof
    fix p assume p: "p \<in> set counter"
    have a: "0 \<le> snd p" using nonneg p by simp
    have b: "snd p \<le> ?t" using nonneg p by (rule member_le_sum)
    have "k * snd p \<le> k * ?t" using k b by simp
    moreover have "snd p \<le> k * snd p" using k a by (simp add: mult_le_cancel_right1)
    moreover have "0 \<le> k * snd p" using k a by simp
    ultimately show "\<bar>snd p\<bar> < 2 ^ 53 \<and> \<bar>k * snd p\<bar> < 2 ^ 53"
      using a small by simp
  qed
  have tot: "py_float ?t = Inr (of_int ?t)" "py_float (k * ?t) = Inr (of_int (k * ?t))"
    using t0 le small k by (simp_all add: py_float_exact)
  have "float_items (of_int (k * ?t)) (map (\<lambda>(c, cnt). (c, k * cnt)) counter) = float_items (of_int ?t) counter"
    using k entries by (intro float_items_scaled) simp_all
  then show "normalize_float (map (\<lambda>(c, cnt). (c, k * cnt)) counter) = normalize_float counter"
    unfolding normalize_float_scaled tot by (simp add: normalize_float_def tot)
qed

theorem normalize_float_scale_witness:
  "normalize_float (map (\<lambda>(c, cnt). (c, 2 * cnt)) [(CHR ''a'', 1), (CHR ''b'', 2)])
     = Inr [(CHR ''a'', 6004799503160661 / 2 ^ 54), (CHR ''b'', 6004799503160661 / 2 ^ 53)] \<and>
   normalize_float (map (\<lambda>(c, cnt). (c, 3 * cnt)) [(CHR ''a'', 1), (CHR ''b'', 2)])
     = Inr [(CHR ''a'', 6004799503160661 / 2 ^ 54), (CHR ''b'', 6004799503160661 / 2 ^ 53)]"
proof -
  let ?counter = "[(CHR ''a'', 1 :: int), (CHR ''b'', 2)]"
  have base: "normalize_float ?counter
                = Inr [(CHR ''a'', 6004799503160661 / 2 ^ 54), (CHR ''b'', 6004799503160661 / 2 ^ 53)]"
    by code_simp
  have doubled: "normalize_float (map (\<lambda>(c, cnt). (c, 2 * cnt)) ?counter) \<noteq> Inl OverflowError"
    by code_simp
  have tripled: "(0::int) < 3 \<and> (\<forall>p\<in>set ?counter. 0 \<le> snd p) \<and> 3 * sum_list (map snd ?counter) < 2 ^ 53"
    by simp
  from normalize_float_scale [of ?counter 3] doubled tripled base show ?thesis
    by simp
qed

subsection \<open>The two readings of the division\<close>

text \<open>
  On a counter of non-negative counts with a total below \<open>2 ^ 53\<close>, which is every
  counter of a corpus of fewer than \<open>2 ^ 53\<close> characters, the conversions are exact, and
  \<open>normalize_float\<close> fails exactly when \<open>normalize\<close> does and otherwise returns, for
  each character, the double nearest to the exact quotient of its count and the total.
\<close>

lemma float_items_exact:
  assumes "\<forall>p\<in>set xs. \<bar>snd p\<bar> < 2 ^ 53"
  shows "float_items s xs =
           (if xs \<noteq> [] \<and> s = 0 then Inl ZeroDivisionError
            else Inr (map (\<lambda>(c, cnt). (c, round_double (of_int cnt / s))) xs))"
  using assms
proof (induction xs)
  case Nil
  show ?case by simp
next
  case (Cons x xs)
  obtain c cnt where x: "x = (c, cnt)" by (cases x)
  have small: "\<bar>cnt\<bar> < 2 ^ 53"
    using Cons.prems by (simp add: x)
  have "float_items s xs =
          (if xs \<noteq> [] \<and> s = 0 then Inl ZeroDivisionError
           else Inr (map (\<lambda>(c, cnt). (c, round_double (of_int cnt / s))) xs))"
    using Cons.prems by (intro Cons.IH) simp
  then show ?case
    by (simp add: x py_float_exact [OF small])
qed

lemma normalize_float_rounds_normalize:
  assumes "\<forall>p\<in>set counter. 0 \<le> snd p" and "sum_list (map snd counter) < 2 ^ 53"
  shows "normalize_float counter =
           (case normalize counter of
              Inl e \<Rightarrow> Inl e
            | Inr d \<Rightarrow>
                Inr (map (\<lambda>(c, cnt). (c, round_double (of_int cnt / of_int (sum_list (map snd counter)))))
                       counter))"
proof -
  let ?t = "sum_list (map snd counter)"
  have t0: "0 \<le> ?t"
    using assms(1) by (intro sum_list_nonneg) auto
  have entries: "\<forall>p\<in>set counter. \<bar>snd p\<bar> < 2 ^ 53"
  proof
    fix p assume p: "p \<in> set counter"
    have "0 \<le> snd p" using assms(1) p by simp
    moreover have "snd p \<le> ?t" using assms(1) p by (rule member_le_sum)
    ultimately show "\<bar>snd p\<bar> < 2 ^ 53" using assms(2) by simp
  qed
  have tot: "py_float ?t = Inr (of_int ?t)"
    using t0 assms(2) by (simp add: py_float_exact)
  show ?thesis
    by (simp add: normalize_float_def tot float_items_exact [OF entries] normalize_def)
qed

section \<open>One sampling step\<close>

lemma py_slice_from_window:
  "1 \<le> order \<Longrightarrow> py_slice_from h (- order) = drop (length h - nat order) h"
  by (auto simp: py_slice_from_def py_bound_def max_def min_def nat_diff_distrib' intro!: arg_cong[where f="\<lambda>n. drop n h"])

text \<open>
  Claim C10. For an order of at least 1, \<open>generate_letter\<close> depends only on the last
  \<open>order\<close> characters of the history: a history that ends with the window \<open>w\<close> of
  \<open>order\<close> characters, whatever precedes it, gives the result that \<open>w\<close> alone gives.
\<close>

theorem generate_letter_window:
  assumes "1 \<le> order" and "length w = nat order"
  shows "generate_letter lm (pre @ w) order rs n = generate_letter lm w order rs n"
  using assms by (simp add: generate_letter_def py_slice_from_window)

theorem generate_letter_window_witness:
  "(1::int) \<le> 2 \<and> length ''ab'' = nat 2 \<and>
   generate_letter [(''ab'', [(CHR ''c'', 1)])] ''xyzab'' 2 (\<lambda>n. 1/2) 0 = Inr (Some CHR ''c'', 1)"
  using generate_letter_window [of 2 "''ab''" "[(''ab'', [(CHR ''c'', 1)])]" "''xyz''" "\<lambda>n. 1/2" 0]
  by (simp add: generate_letter_def py_slice_from_def py_bound_def)

text \<open>
  Claim C4. For an order of at least 1, when the trailing \<open>order\<close>-character window of
  the history is not a key of the table, \<open>generate_letter\<close> raises \<^verbatim>\<open>KeyError\<close>: it returns
  no character and uses no default distribution.
\<close>

theorem generate_letter_lookup_miss:
  assumes "1 \<le> order" and "map_of lm (drop (length h - nat order) h) = None"
  shows "generate_letter lm h order rs n = Inl KeyError"
  using assms by (simp add: generate_letter_def py_slice_from_window)

theorem generate_letter_lookup_miss_witness:
  "(1::int) \<le> 2 \<and> map_of [(''ab'', [(CHR ''c'', 1)])] (drop (length ''xab~'' - nat 2) ''xab~'') = None \<and>
   generate_letter [(''ab'', [(CHR ''c'', 1)])] ''xab~'' 2 (\<lambda>n. 1/2) 0 = Inl KeyError"
  using generate_letter_lookup_miss [of 2 "[(''ab'', [(CHR ''c'', 1)])]" "''xab~''" "\<lambda>n. 1/2" 0]
  by simp

text \<open>
  Claim C7, at a failing input. The distribution of the history \<^verbatim>\<open>~\<close> has the two pairs
  \<open>(a, 1/2)\<close> and \<open>(b, 1/4)\<close>, and the draw is \<open>4/5\<close>: the running value stays
  positive through both pairs. \<open>generate_letter\<close> leaves its loop and returns \<^verbatim>\<open>None\<close>,
  not the last pair's character \<open>b\<close>.
\<close>

theorem generate_letter_no_fallback:
  "generate_letter [(''~'', [(CHR ''a'', 1/2), (CHR ''b'', 1/4)])] ''~'' 1 (\<lambda>n. 4/5) 0 = Inr (None, 1)"
  by (simp add: generate_letter_def py_slice_from_def py_bound_def)

section \<open>The generation loop\<close>

text \<open>
  Claim C3, at a failing input. The table has the single history \<^verbatim>\<open>~\<close> with the pairs
  \<open>(a, 1/2)\<close> and \<open>(b, 1/4)\<close>, the order is 1 and the first draw is \<open>4/5\<close>. The only
  history looked up is present, and yet \<open>generate_text\<close> asked for one character returns
  none: the sampling step yields \<^verbatim>\<open>None\<close>, and appending it to the history raises
  \<^verbatim>\<open>TypeError\<close>.
\<close>

theorem generate_text_type_error:
  "generate_text [(''~'', [(CHR ''a'', 1/2), (CHR ''b'', 1/4)])] 1 1 (\<lambda>n. 4/5) = Inl TypeError"
  by (simp add: generate_text_def py_range_def initial_state_def py_repeat_def generate_step_def generate_letter_def py_slice_from_def py_bound_def)

lemma generate_step_cong:
  "rs (draws st) = rs' (draws st) \<Longrightarrow> generate_step lm order rs st = generate_step lm order rs' st"
  by (simp add: generate_step_def generate_letter_def split: option.splits)

lemma generate_step_draws:
  "generate_step lm order rs st = Inr st' \<Longrightarrow> draws st' = Suc (draws st)"
  by (auto simp: generate_step_def generate_letter_def split: option.splits sum.splits prod.splits)

lemma generate_loop_cong:
  "\<forall>i. draws st \<le> i \<and> i < draws st + k \<longrightarrow> rs i = rs' i \<Longrightarrow>
   generate_loop lm order rs k st = generate_loop lm order rs' k st"
proof (induction k arbitrary: st)
  case 0
  show ?case by simp
next
  case (Suc k)
  have first: "generate_step lm order rs st = generate_step lm order rs' st"
    using Suc.prems by (intro generate_step_cong) simp
  show ?case
  proof (cases "generate_step lm order rs' st")
    case (Inl e)
    with first show ?thesis by simp
  next
    case (Inr st')
    have "draws st' = Suc (draws st)"
      using Inr by (rule generate_step_draws)
    then have "generate_loop lm order rs k st' = generate_loop lm order rs' k st'"
      using Suc.prems by (intro Suc.IH) simp
    with first Inr show ?thesis by simp
  qed
qed

text \<open>
  Whenever \<open>generate_text\<close> does return, the text has exactly \<open>nletters\<close> characters
  and exactly \<open>nletters\<close> draws were made: each completed iteration appends one
  character and draws once.
\<close>

lemma generate_step_out:
  "generate_step lm order rs st = Inr st' \<Longrightarrow> length (out st') = Suc (length (out st))"
  by (auto simp: generate_step_def split: sum.splits option.splits prod.splits)

lemma generate_loop_counts:
  "generate_loop lm order rs k st = Inr st' \<Longrightarrow>
   length (out st') = length (out st) + k \<and> draws st' = draws st + k"
proof (induction k arbitrary: st)
  case 0
  then show ?case by simp
next
  case (Suc k)
  then obtain st1 where step: "generate_step lm order rs st = Inr st1"
    and rest: "generate_loop lm order rs k st1 = Inr st'"
    by (auto split: sum.splits)
  from Suc.IH [OF rest] generate_step_out [OF step] generate_step_draws [OF step]
  show ?case by simp
qed

lemma generate_text_length:
  assumes "generate_text lm order nletters rs = Inr (text, n)"
  shows "length text = nat nletters \<and> n = nat nletters"
proof -
  obtain st where "generate_loop lm order rs (nat nletters) (initial_state order) = Inr st"
    and "text = out st" and "n = draws st"
    using assms by (auto simp: generate_text_def py_range_def split: sum.splits)
  then show ?thesis
    using generate_loop_counts [of lm order rs "nat nletters" "initial_state order" st]
    by (simp add: initial_state_def)
qed

text \<open>
  Claim C8. Generation is a function of the table, the order, the number of letters and
  the recorded draws: two runs whose random sources agree on the first \<open>nletters\<close>
  draws give the same result, text and failure alike. The table is itself a function of
  the corpus and the order (\<open>train_char_lm\<close>).
\<close>

theorem generate_text_deterministic:
  assumes "\<forall>i < nat nletters. rs i = rs' i"
  shows "generate_text lm order nletters rs = generate_text lm order nletters rs'"
proof -
  have "generate_loop lm order rs (nat nletters) (initial_state order)
        = generate_loop lm order rs' (nat nletters) (initial_state order)"
    using assms by (intro generate_loop_cong) (simp add: initial_state_def)
  then show ?thesis
    by (simp add: generate_text_def py_range_def)
qed

theorem generate_text_deterministic_witness:
  "generate_text [(''~'', [(CHR ''a'', 1)]), (''a'', [(CHR ''b'', 1)])] 1 2 (\<lambda>n. if n < 2 then 1/2 else 0)
     = generate_text [(''~'', [(CHR ''a'', 1)]), (''a'', [(CHR ''b'', 1)])] 1 2 (\<lambda>n. 1/2) \<and>
   generate_text [(''~'', [(CHR ''a'', 1)]), (''a'', [(CHR ''b'', 1)])] 1 2 (\<lambda>n. 1/2) = Inr (''ab'', 2)"
proof -
  have agree: "\<forall>i < nat 2. (if i < 2 then 1/2 else 0) = (1/2 :: real)"
    by simp
  have run: "generate_text [(''~'', [(CHR ''a'', 1)]), (''a'', [(CHR ''b'', 1)])] 1 2 (\<lambda>n. 1/2)
               = Inr (''ab'', 2)"
    by (simp add: generate_text_def py_range_def initial_state_def py_repeat_def generate_step_def
          generate_letter_def py_slice_from_def py_bound_def numeral_2_eq_2)
  from generate_text_deterministic [OF agree] run show ?thesis
    by simp
qed

text \<open>
  Claim C6, as stated, fails. The loop assigns \<^verbatim>\<open>history[-order:] + c\<close>: the window of
  \<open>order\<close> characters with the chosen character appended, so \<open>order + 1\<close>
  characters. With order 1, after the first iteration the buffer is \<^verbatim>\<open>~a\<close>, of length 2.
\<close>

theorem generate_loop_history_counterexample:
  "generate_loop [(''~'', [(CHR ''a'', 1)])] 1 (\<lambda>n. 1/2) 1 (initial_state 1)
     = Inr \<lparr>history = ''~a'', out = ''a'', draws = 1\<rparr> \<and>
   length (history \<lparr>history = ''~a'', out = ''a'', draws = 1\<rparr>) \<noteq> nat 1"
  by (simp add: initial_state_def py_repeat_def generate_step_def generate_letter_def
        py_slice_from_def py_bound_def)

lemma generate_loop_snoc:
  "generate_loop lm order rs (Suc k) st =
     (case generate_loop lm order rs k st of
        Inl e \<Rightarrow> Inl e
      | Inr st' \<Rightarrow> generate_step lm order rs st')"
proof (induction k arbitrary: st)
  case 0
  show ?case by (simp split: sum.splits)
next
  case (Suc k)
  show ?case
  proof (cases "generate_step lm order rs st")
    case (Inl e)
    then show ?thesis by simp
  next
    case (Inr st1)
    then show ?thesis
      using Suc.IH [of st1] by simp
  qed
qed

lemma generate_step_buffer:
  assumes "generate_step lm order rs st = Inr st'"
  shows "\<exists>c. history st' = py_slice_from (history st) (- order) @ [c] \<and> out st' = out st @ [c]"
  using assms by (auto simp: generate_step_def split: sum.splits option.splits prod.splits)

lemma window_length:
  "1 \<le> order \<Longrightarrow> nat order \<le> length h \<Longrightarrow> length (py_slice_from h (- order)) = nat order"
  by (simp add: py_slice_from_window)

lemma generate_loop_buffer_ge:
  assumes "1 \<le> order"
  shows "generate_loop lm order rs k (initial_state order) = Inr st \<Longrightarrow>
         nat order \<le> length (history st)"
proof (induction k arbitrary: st)
  case 0
  then have "st = initial_state order" by simp
  then show ?case
    by (simp add: initial_state_def py_repeat_def)
next
  case (Suc k)
  from Suc.prems obtain st0 where reach: "generate_loop lm order rs k (initial_state order) = Inr st0"
    and step: "generate_step lm order rs st0 = Inr st"
    unfolding generate_loop_snoc by (auto split: sum.splits)
  have "length (py_slice_from (history st0) (- order)) = nat order"
    using assms Suc.IH [OF reach] by (rule window_length)
  with generate_step_buffer [OF step] show ?case
    by auto
qed

text \<open>
  Claim C6, amended. For an order of at least 1 the buffer starts as \<open>order\<close> sentinel
  characters. Every iteration reads the trailing window \<^verbatim>\<open>history[-order:]\<close> of the buffer
  it finds, which has exactly \<open>order\<close> characters, and leaves as the new buffer that
  window followed by the chosen character, which it also appends to the output: so after
  every iteration the buffer has exactly \<open>order + 1\<close> characters. Here \<open>st\<close> is the
  state after \<open>k\<close> iterations and \<open>st'\<close> the state after the next one.
\<close>

theorem generate_loop_history_length:
  assumes "1 \<le> order" and "generate_loop lm order rs (Suc k) (initial_state order) = Inr st'"
  shows "\<exists>st c. generate_loop lm order rs k (initial_state order) = Inr st \<and>
           history st' = py_slice_from (history st) (- order) @ [c] \<and>
           out st' = out st @ [c] \<and>
           length (py_slice_from (history st) (- order)) = nat order \<and>
           length (history st') = nat order + 1"
proof -
  from assms(2) obtain st where reach: "generate_loop lm order rs k (initial_state order) = Inr st"
    and step: "generate_step lm order rs st = Inr st'"
    unfolding generate_loop_snoc by (auto split: sum.splits)
  have window: "length (py_slice_from (history st) (- order)) = nat order"
    using assms(1) generate_loop_buffer_ge [OF assms(1) reach] by (rule window_length)
  from generate_step_buffer [OF step] obtain c
    where buf: "history st' = py_slice_from (history st) (- order) @ [c]" and "out st' = out st @ [c]"
    by auto
  with reach window show ?thesis
    by auto
qed

theorem generate_loop_history_length_witness:
  "generate_loop [(''~'', [(CHR ''a'', 1)]), (''a'', [(CHR ''b'', 1)])] 1 (\<lambda>n. 1/2) (Suc 1) (initial_state 1)
     = Inr \<lparr>history = ''ab'', out = ''ab'', draws = 2\<rparr> \<and>
   length (history \<lparr>history = ''ab'', out = ''ab'', draws = 2\<rparr>) = nat 1 + 1"
proof -
  have ord: "(1::int) \<le> 1" by simp
  have run: "generate_loop [(''~'', [(CHR ''a'', 1)]), (''a'', [(CHR ''b'', 1)])] 1 (\<lambda>n. 1/2) (Suc 1) (initial_state 1)
     = Inr \<lparr>history = ''ab'', out = ''ab'', draws = 2\<rparr>"
    by (simp add: initial_state_def py_repeat_def generate_step_def generate_letter_def
        py_slice_from_def py_bound_def)
  from generate_loop_history_length [OF ord run] run show ?thesis
    by auto
qed

section \<open>The counting loop\<close>

lemma counter_get_update:
  "counter_get (AList.update c v cs) c' = (if c' = c then v else counter_get cs c')"
  by (simp add: counter_get_def update_conv')

lemma default_get_bump:
  "default_get (bump lm h c) h' =
     (if h' = h then AList.update c (counter_get (default_get lm h) c + 1) (default_get lm h)
      else default_get lm h')"
  by (simp add: default_get_def bump_def Let_def update_conv')

lemma cnt_of_bump:
  "cnt_of (bump lm h c) h' c' = cnt_of lm h' c' + (if h' = h \<and> c' = c then 1 else 0)"
  by (simp add: cnt_of_def default_get_bump counter_get_update)

lemma sum_list_update:
  "sum_list (map snd (AList.update c (counter_get cs c + 1) cs)) = sum_list (map snd cs) + 1"
  by (induction cs) (auto simp: counter_get_def)

lemma total_of_bump:
  "total_of (bump lm h c) h' = total_of lm h' + (if h' = h then 1 else 0)"
  by (simp add: total_of_def default_get_bump sum_list_update)

lemma keys_bump: "fst ` set (bump lm h c) = insert h (fst ` set lm)"
  by (simp add: bump_def Let_def dom_update)

lemma set_update_subset: "set (AList.update k v al) \<subseteq> insert (k, v) (set al)"
  by (induction al) auto

lemma counter_get_nonneg: "list_all (\<lambda>p. 1 \<le> snd p) cs \<Longrightarrow> 0 \<le> counter_get cs c"
  by (induction cs) (auto simp: counter_get_def)

lemma counter_wf_update:
  assumes "counter_wf cs"
  shows "counter_wf (AList.update c (counter_get cs c + 1) cs)"
proof -
  have pos: "1 \<le> counter_get cs c + 1"
    using assms counter_get_nonneg [of cs c] by (simp add: counter_wf_def)
  have "\<forall>p\<in>set (AList.update c (counter_get cs c + 1) cs). 1 \<le> snd p"
    using set_update_subset [of c "counter_get cs c + 1" cs] assms pos
    by (auto simp: counter_wf_def list_all_iff)
  then show ?thesis
    using assms by (simp add: counter_wf_def distinct_update list_all_iff)
qed

lemma default_get_wf:
  assumes "counts_ok lm"
  shows "counter_wf (default_get lm h)"
proof (cases "map_of lm h")
  case None
  then show ?thesis by (simp add: default_get_def counter_wf_def)
next
  case (Some cs)
  then have "(h, cs) \<in> set lm" by (rule map_of_SomeD)
  then have "counter_wf cs"
    using assms by (auto simp: counts_ok_def list_all_iff)
  with Some show ?thesis by (simp add: default_get_def)
qed

lemma counts_ok_bump:
  assumes "counts_ok lm"
  shows "counts_ok (bump lm h c)"
proof -
  let ?cs = "AList.update c (counter_get (default_get lm h) c + 1) (default_get lm h)"
  have new: "?cs \<noteq> [] \<and> counter_wf ?cs"
    using default_get_wf [OF assms] by (simp add: counter_wf_update)
  have "\<forall>p\<in>set (AList.update h ?cs lm). snd p \<noteq> [] \<and> counter_wf (snd p)"
    using set_update_subset [of h ?cs lm] assms new
    by (auto simp: counts_ok_def list_all_iff)
  then show ?thesis
    using assms by (simp add: counts_ok_def bump_def Let_def distinct_update list_all_iff)
qed

lemma cnt_of_bump_all:
  "cnt_of (bump_all ts lm) h c = cnt_of lm h c + int (count_list ts (h, c))"
  by (induction ts lm rule: bump_all.induct) (auto simp: cnt_of_bump)

lemma total_of_bump_all:
  "total_of (bump_all ts lm) h = total_of lm h + int (length (filter (\<lambda>t. fst t = h) ts))"
  by (induction ts lm rule: bump_all.induct) (auto simp: total_of_bump)

lemma keys_bump_all: "fst ` set (bump_all ts lm) = fst ` set lm \<union> fst ` set ts"
  by (induction ts lm rule: bump_all.induct) (auto simp: keys_bump)

lemma counts_ok_bump_all: "counts_ok lm \<Longrightarrow> counts_ok (bump_all ts lm)"
  by (induction ts lm rule: bump_all.induct) (auto simp: counts_ok_bump)

lemma count_loop_bump_all:
  "\<forall>i\<in>set is. py_getitem data (int i + order) = Inr (f i) \<Longrightarrow>
   count_loop data order is lm
     = Inr (bump_all (map (\<lambda>i. (py_slice data (int i) (int i + order), f i)) is) lm)"
  by (induction "is" arbitrary: lm) auto

lemma sum_list_ge_length:
  "list_all (\<lambda>p. 1 \<le> snd p) cs \<Longrightarrow> int (length cs) \<le> sum_list (map snd cs)"
  by (induction cs) auto

lemma counter_total_pos: "cs \<noteq> [] \<Longrightarrow> counter_wf cs \<Longrightarrow> 0 < sum_list (map snd cs)"
  using sum_list_ge_length [of cs] by (cases cs) (auto simp: counter_wf_def)

lemma normalize_scale: "cs \<noteq> [] \<Longrightarrow> counter_wf cs \<Longrightarrow> normalize cs = Inr (scale cs)"
  using counter_total_pos [of cs] by (simp add: normalize_def scale_def)

lemma normalize_all_scale:
  "list_all (\<lambda>p. snd p \<noteq> [] \<and> counter_wf (snd p)) lm \<Longrightarrow>
   normalize_all lm = Inr (map (\<lambda>(h, cs). (h, scale cs)) lm)"
  by (induction lm rule: normalize_all.induct) (auto simp: normalize_scale)

lemma count_loop_ok:
  "count_loop data order is lm = Inr lm' \<Longrightarrow> counts_ok lm \<Longrightarrow> counts_ok lm'"
  by (induction "is" arbitrary: lm) (auto simp: counts_ok_bump split: sum.splits)

lemma counts_ok_Nil: "counts_ok []"
  by (simp add: counts_ok_def)

lemma train_char_lm_shape:
  assumes "train_char_lm corpus order = Inr t"
  shows "\<exists>lm. counts_ok lm \<and> t = map (\<lambda>(h, cs). (h, scale cs)) lm"
proof -
  let ?data = "py_repeat CHR ''~'' order @ corpus"
  obtain lm where loop: "count_loop ?data order (py_range (int (length ?data) - order)) [] = Inr lm"
    and norm: "normalize_all lm = Inr t"
    using assms by (auto simp: train_char_lm_def Let_def split: sum.splits)
  have ok: "counts_ok lm"
    using loop counts_ok_Nil by (rule count_loop_ok)
  then have "normalize_all lm = Inr (map (\<lambda>(h, cs). (h, scale cs)) lm)"
    by (intro normalize_all_scale) (simp add: counts_ok_def)
  with norm ok show ?thesis by auto
qed

lemma member_le_total:
  "list_all (\<lambda>p. 1 \<le> snd p) cs \<Longrightarrow> p \<in> set cs \<Longrightarrow> snd p \<le> sum_list (map snd (cs :: counter))"
proof (induction cs)
  case Nil
  then show ?case by simp
next
  case (Cons q cs)
  have "0 \<le> sum_list (map snd cs)"
    using Cons.prems(1) sum_list_ge_length [of cs] by simp
  with Cons show ?case by auto
qed

lemma sum_list_scale:
  "sum_list (map (\<lambda>p. real_of_int (snd p) / r) cs) = real_of_int (sum_list (map snd cs)) / r"
  by (induction cs) (auto simp: add_divide_distrib)

lemma scale_props:
  assumes "cs \<noteq> []" and "counter_wf cs"
  shows "scale cs \<noteq> []"
    and "\<forall>p\<in>set (scale cs). 0 \<le> snd p \<and> snd p \<le> 1"
    and "sum_list (map snd (scale cs)) = 1"
proof -
  let ?s = "sum_list (map snd cs)"
  have pos: "0 < ?s" using assms by (rule counter_total_pos)
  show "scale cs \<noteq> []" using assms(1) by (simp add: scale_def)
  show "sum_list (map snd (scale cs)) = 1"
    using pos by (simp add: scale_def comp_def case_prod_beta sum_list_scale)
  show "\<forall>p\<in>set (scale cs). 0 \<le> snd p \<and> snd p \<le> 1"
  proof
    fix p assume "p \<in> set (scale cs)"
    then obtain c k where ck: "(c, k) \<in> set cs" and p: "p = (c, real_of_int k / real_of_int ?s)"
      by (auto simp: scale_def)
    have "1 \<le> k" using ck assms(2) by (auto simp: counter_wf_def list_all_iff)
    moreover have "k \<le> ?s"
      using member_le_total [of cs "(c, k)"] ck assms(2) by (simp add: counter_wf_def)
    ultimately show "0 \<le> snd p \<and> snd p \<le> 1"
      using pos p by simp
  qed
qed

lemma table_entry:
  assumes "counts_ok lm" and "map_of (map (\<lambda>(h, cs). (h, scale cs)) lm) h = Some d"
  shows "\<exists>cs. map_of lm h = Some cs \<and> cs \<noteq> [] \<and> counter_wf cs \<and> d = scale cs"
proof -
  have "map_of (map (\<lambda>(h, cs). (h, scale cs)) lm) h = map_option scale (map_of lm h)"
    by (simp add: map_of_map)
  with assms(2) obtain cs where cs: "map_of lm h = Some cs" and d: "d = scale cs"
    by auto
  from cs have "(h, cs) \<in> set lm" by (rule map_of_SomeD)
  then have "cs \<noteq> [] \<and> counter_wf cs"
    using assms(1) by (auto simp: counts_ok_def list_all_iff)
  with cs d show ?thesis by simp
qed

section \<open>Trained tables\<close>

text \<open>
  Claim C2. In every table that \<open>train_char_lm\<close> returns, the distribution of every
  history present is non-empty, each of its probabilities lies in \<open>[0, 1]\<close>, and they
  sum to 1 (exactly, the quotients being exact reals here; so within any epsilon).
\<close>

theorem train_char_lm_distribution:
  assumes "train_char_lm corpus order = Inr t" and "map_of t h = Some d"
  shows "d \<noteq> [] \<and> (\<forall>p\<in>set d. 0 \<le> snd p \<and> snd p \<le> 1) \<and> sum_list (map snd d) = 1"
proof -
  obtain lm where "counts_ok lm" and "t = map (\<lambda>(h, cs). (h, scale cs)) lm"
    using train_char_lm_shape [OF assms(1)] by auto
  then obtain cs where "cs \<noteq> []" and "counter_wf cs" and "d = scale cs"
    using table_entry [of lm h d] assms(2) by auto
  then show ?thesis
    using scale_props [of cs] by simp
qed

theorem train_char_lm_distribution_witness:
  "train_char_lm ''aab'' 1 = Inr [(''~'', [(CHR ''a'', 1)]), (''a'', [(CHR ''a'', 1/2), (CHR ''b'', 1/2)])] \<and>
   map_of [(''~'', [(CHR ''a'', 1)]), (''a'', [(CHR ''a'', 1/2), (CHR ''b'', 1/2)])] ''a''
     = Some [(CHR ''a'', 1/2), (CHR ''b'', 1/2)] \<and>
   sum_list (map snd [(CHR ''a'', 1/2 :: real), (CHR ''b'', 1/2)]) = 1"
proof -
  let ?t = "[(''~'', [(CHR ''a'', 1 :: real)]), (''a'', [(CHR ''a'', 1/2), (CHR ''b'', 1/2)])]"
  have run: "train_char_lm ''aab'' 1 = Inr ?t"
    by code_simp
  have look: "map_of ?t ''a'' = Some [(CHR ''a'', 1/2), (CHR ''b'', 1/2)]"
    by simp
  from train_char_lm_distribution [OF run look] run look show ?thesis
    by simp
qed

subsection \<open>The table against its reference definition\<close>

lemma py_slice_nonneg:
  "i + k \<le> length xs \<Longrightarrow> py_slice xs (int i) (int i + int k) = take k (drop i xs)"
  by (simp add: py_slice_def py_bound_def Let_def min_def max_def nat_add_distrib)

lemma spec_transitions_shift:
  "spec_transitions corpus k =
     map (\<lambda>i. (take k (drop i (spec_padded corpus k)), spec_padded corpus k ! (i + k)))
       [0 ..< length corpus]"
proof -
  have "[k ..< length (spec_padded corpus k)] = map (\<lambda>i. i + k) [0 ..< length corpus]"
    by (simp add: spec_padded_def map_add_upt add.commute)
  then show ?thesis
    by (simp add: spec_transitions_def Let_def comp_def)
qed

lemma train_char_lm_nonneg:
  assumes "0 \<le> order"
  shows "train_char_lm corpus order
           = Inr (map (\<lambda>(h, cs). (h, scale cs)) (bump_all (spec_transitions corpus (nat order)) []))"
proof -
  define k where "k = nat order"
  define data where "data = spec_padded corpus k"
  have order: "order = int k" using assms by (simp add: k_def)
  have len: "length data = k + length corpus"
    by (simp add: data_def spec_padded_def)
  have data: "py_repeat CHR ''~'' order @ corpus = data"
    by (simp add: data_def spec_padded_def py_repeat_def k_def)
  have range: "py_range (int (length data) - order) = [0 ..< length corpus]"
    by (simp add: py_range_def len order)
  have get: "\<forall>i\<in>set [0 ..< length corpus]. py_getitem data (int i + order) = Inr (data ! (i + k))"
    using len by (auto simp: order py_getitem_def Let_def nat_add_distrib)
  have slice: "map (\<lambda>i. (py_slice data (int i) (int i + order), data ! (i + k))) [0 ..< length corpus]
                 = spec_transitions corpus k"
    unfolding spec_transitions_shift data_def [symmetric] order
    using len by (auto simp: py_slice_nonneg)
  have loop: "count_loop data order [0 ..< length corpus] []
                = Inr (bump_all (spec_transitions corpus k) [])"
    using count_loop_bump_all [OF get, of "[]"] slice by simp
  have "counts_ok (bump_all (spec_transitions corpus k) [])"
    by (intro counts_ok_bump_all counts_ok_Nil)
  then have "normalize_all (bump_all (spec_transitions corpus k) [])
               = Inr (map (\<lambda>(h, cs). (h, scale cs)) (bump_all (spec_transitions corpus k) []))"
    by (intro normalize_all_scale) (simp add: counts_ok_def)
  then show ?thesis
    unfolding train_char_lm_def Let_def data range loop by (simp add: k_def)
qed

lemma count_list_successors:
  "count_list ts (h, c) = count_list (map snd (filter (\<lambda>t. fst t = h) ts)) c"
  by (induction ts) auto

lemma spec_total_length:
  "spec_total corpus k h = length (filter (\<lambda>t. fst t = h) (spec_transitions corpus k))"
proof -
  let ?succ = "map snd (filter (\<lambda>t. fst t = h) (spec_transitions corpus k))"
  have "spec_total corpus k h = sum (count_list ?succ) UNIV"
    by (simp add: spec_total_def spec_count_def count_list_successors [symmetric])
  also have "\<dots> = length ?succ"
    by (rule sum_count_set) simp_all
  finally show ?thesis by simp
qed

lemma counter_get_member:
  assumes "counter_wf cs"
  shows "(c, n) \<in> set cs \<longleftrightarrow> 0 < counter_get cs c \<and> n = counter_get cs c"
proof
  assume mem: "(c, n) \<in> set cs"
  then have "map_of cs c = Some n"
    using assms by (simp add: counter_wf_def)
  moreover have "1 \<le> n"
    using mem assms by (auto simp: counter_wf_def list_all_iff)
  ultimately show "0 < counter_get cs c \<and> n = counter_get cs c"
    by (simp add: counter_get_def)
next
  assume "0 < counter_get cs c \<and> n = counter_get cs c"
  then have "map_of cs c = Some n"
    by (auto simp: counter_get_def split: option.splits)
  then show "(c, n) \<in> set cs" by (rule map_of_SomeD)
qed

lemma set_scale:
  assumes "counter_wf cs"
  shows "set (scale cs)
           = {(c, real_of_int (counter_get cs c) / real_of_int (sum_list (map snd cs))) | c.
                0 < counter_get cs c}"
  using counter_get_member [OF assms]
  by (auto simp: scale_def image_iff)

lemma total_of_Nil: "total_of [] h = 0"
  by (simp add: total_of_def default_get_def)

lemma cnt_of_Nil: "cnt_of [] h c = 0"
  by (simp add: cnt_of_def default_get_def counter_get_def)

lemma spec_table_entry:
  fixes corpus k
  defines "lm \<equiv> bump_all (spec_transitions corpus k) []"
  shows "case map_of (map (\<lambda>(h, cs). (h, scale cs)) lm) h of
           None \<Rightarrow> spec_total corpus k h = 0
         | Some d \<Rightarrow> 0 < spec_total corpus k h \<and> distinct (map fst d) \<and> set d = spec_dist corpus k h"
proof -
  have ok: "counts_ok lm"
    unfolding lm_def by (intro counts_ok_bump_all counts_ok_Nil)
  have look: "map_of (map (\<lambda>(h, cs). (h, scale cs)) lm) h = map_option scale (map_of lm h)"
    by (simp add: map_of_map)
  have keys: "fst ` set lm = fst ` set (spec_transitions corpus k)"
    by (simp add: lm_def keys_bump_all)
  have total: "total_of lm h = int (spec_total corpus k h)"
    by (simp add: lm_def total_of_bump_all spec_total_length total_of_Nil)
  have cnt: "cnt_of lm h c = int (spec_count corpus k h c)" for c
    by (simp add: lm_def cnt_of_bump_all spec_count_def cnt_of_Nil)
  show ?thesis
  proof (cases "map_of lm h")
    case None
    then have "h \<notin> fst ` set (spec_transitions corpus k)"
      using keys by (simp add: map_of_eq_None_iff)
    then have "filter (\<lambda>t. fst t = h) (spec_transitions corpus k) = []"
      by (auto simp: filter_empty_conv)
    with None look show ?thesis
      by (simp add: spec_total_length)
  next
    case (Some cs)
    have wf: "cs \<noteq> [] \<and> counter_wf cs"
      using ok map_of_SomeD [OF Some] by (auto simp: counts_ok_def list_all_iff)
    have dg: "default_get lm h = cs"
      using Some by (simp add: default_get_def)
    have tot: "sum_list (map snd cs) = int (spec_total corpus k h)"
      using total dg by (simp add: total_of_def)
    have get: "counter_get cs c = int (spec_count corpus k h c)" for c
      using cnt [of c] dg by (simp add: cnt_of_def)
    have pos: "0 < spec_total corpus k h"
      using counter_total_pos [of cs] wf tot by simp
    have dist: "distinct (map fst (scale cs))"
      using wf by (simp add: scale_def counter_wf_def comp_def case_prod_beta)
    have "set (scale cs) = spec_dist corpus k h"
      using wf by (simp add: set_scale spec_dist_def tot get)
    with Some look pos dist show ?thesis by simp
  qed
qed

text \<open>
  Claim C1. For every corpus and every order of at least 1, \<open>train_char_lm\<close> returns a
  table, and that table is the reference one: its keys are unique, a history is a key
  exactly when the reference definition counts an observation of it, and each key maps to
  a list with one pair per observed successor, the character with its reference count
  divided by the history's reference total. The empty corpus gives the empty table.
\<close>

theorem train_char_lm_refines_spec:
  assumes "1 \<le> order"
  shows "\<exists>t. train_char_lm corpus order = Inr t \<and> is_spec_table corpus (nat order) t \<and>
             (corpus = [] \<longrightarrow> t = [])"
proof -
  let ?lm = "bump_all (spec_transitions corpus (nat order)) []"
  let ?t = "map (\<lambda>(h, cs). (h, scale cs)) ?lm"
  have run: "train_char_lm corpus order = Inr ?t"
    using assms by (intro train_char_lm_nonneg) simp
  have "counts_ok ?lm"
    by (intro counts_ok_bump_all counts_ok_Nil)
  then have keys: "distinct (map fst ?t)"
    by (simp add: counts_ok_def comp_def case_prod_beta)
  have table: "is_spec_table corpus (nat order) ?t"
    unfolding is_spec_table_def using keys spec_table_entry [of corpus "nat order"] by blast
  have "corpus = [] \<longrightarrow> ?t = []"
    by (simp add: spec_transitions_def spec_padded_def)
  with run table show ?thesis by blast
qed

theorem train_char_lm_refines_spec_witness:
  "train_char_lm ''aab'' 1
     = Inr [(''~'', [(CHR ''a'', 1)]), (''a'', [(CHR ''a'', 1/2), (CHR ''b'', 1/2)])] \<and>
   is_spec_table ''aab'' (nat 1)
     [(''~'', [(CHR ''a'', 1)]), (''a'', [(CHR ''a'', 1/2), (CHR ''b'', 1/2)])] \<and>
   spec_dist ''aab'' (nat 1) ''a'' = {(CHR ''a'', 1/2), (CHR ''b'', 1/2)}"
proof -
  let ?t = "[(''~'', [(CHR ''a'', 1 :: real)]), (''a'', [(CHR ''a'', 1/2), (CHR ''b'', 1/2)])]"
  have ord: "(1::int) \<le> 1" by simp
  have run: "train_char_lm ''aab'' 1 = Inr ?t"
    by code_simp
  from train_char_lm_refines_spec [OF ord, of "''aab''"] run
  have table: "is_spec_table ''aab'' (nat 1) ?t"
    by auto
  then have "case map_of ?t ''a'' of
               None \<Rightarrow> spec_total ''aab'' (nat 1) ''a'' = 0
             | Some d \<Rightarrow> 0 < spec_total ''aab'' (nat 1) ''a'' \<and> distinct (map fst d) \<and>
                         set d = spec_dist ''aab'' (nat 1) ''a''"
    unfolding is_spec_table_def by blast
  then have "spec_dist ''aab'' (nat 1) ''a'' = {(CHR ''a'', 1/2), (CHR ''b'', 1/2)}"
    by simp
  with run table show ?thesis by simp
qed

text \<open>
  Claim C5, as stated, fails. \<open>train_char_lm\<close> has no check of its order: with order 0
  every history is the empty string, and the corpus \<^verbatim>\<open>ab\<close> gives a table, not a failure.
\<close>

theorem train_char_lm_order_counterexample:
  "train_char_lm ''ab'' 0 = Inr [('''', [(CHR ''a'', 1/2), (CHR ''b'', 1/2)])]"
  by code_simp

lemma train_char_lm_succeeds:
  assumes "\<forall>i\<in>set (py_range (int (length (py_repeat CHR ''~'' order @ corpus)) - order)).
             py_getitem (py_repeat CHR ''~'' order @ corpus) (int i + order) = Inr (f i)"
  shows "\<exists>t. train_char_lm corpus order = Inr t"
proof -
  let ?data = "py_repeat CHR ''~'' order @ corpus"
  let ?range = "py_range (int (length ?data) - order)"
  let ?lm = "bump_all (map (\<lambda>i. (py_slice ?data (int i) (int i + order), f i)) ?range) []"
  have loop: "count_loop ?data order ?range [] = Inr ?lm"
    using assms by (rule count_loop_bump_all)
  have "counts_ok ?lm"
    by (intro counts_ok_bump_all counts_ok_Nil)
  then have "normalize_all ?lm = Inr (map (\<lambda>(h, cs). (h, scale cs)) ?lm)"
    by (intro normalize_all_scale) (simp add: counts_ok_def)
  then show ?thesis
    unfolding train_char_lm_def Let_def loop by simp
qed

lemma train_char_lm_negative_ok:
  assumes "order < 0" and "- order \<le> int (length corpus)"
  shows "\<exists>t. train_char_lm corpus order = Inr t"
proof (rule train_char_lm_succeeds)
  let ?f = "\<lambda>i. corpus ! nat (if int i + order < 0 then int i + order + int (length corpus) else int i + order)"
  show "\<forall>i\<in>set (py_range (int (length (py_repeat CHR ''~'' order @ corpus)) - order)).
          py_getitem (py_repeat CHR ''~'' order @ corpus) (int i + order) = Inr (?f i)"
    using assms by (auto simp: py_repeat_def py_range_def py_getitem_def Let_def)
qed

lemma train_char_lm_negative_fails:
  assumes "int (length corpus) < - order"
  shows "train_char_lm corpus order = Inl IndexError"
proof -
  have neg: "order < 0" using assms by linarith
  have range: "py_range (int (length corpus) - order) = 0 # [1 ..< nat (int (length corpus) - order)]"
    using neg by (simp add: py_range_def upt_rec)
  have "py_getitem corpus order = Inl IndexError"
    using assms neg by (simp add: py_getitem_def Let_def)
  then show ?thesis
    using neg by (simp add: train_char_lm_def Let_def py_repeat_def range)
qed

text \<open>
  Claim C5, amended. \<open>train_char_lm\<close> never rejects an order as such. It returns a table
  whenever the corpus has at least \<open>- order\<close> characters: so for every corpus, the
  empty one included, when the order is at least 1, and also when it is 0. Its only
  failure is the \<^verbatim>\<open>IndexError\<close> of the first \<^verbatim>\<open>data[i+order]\<close>, for a negative order
  on a corpus of fewer than \<open>- order\<close> characters.
\<close>

theorem train_char_lm_failure:
  "(- order \<le> int (length corpus) \<longrightarrow> (\<exists>t. train_char_lm corpus order = Inr t)) \<and>
   (int (length corpus) < - order \<longrightarrow> train_char_lm corpus order = Inl IndexError)"
proof (intro conjI impI)
  assume long: "- order \<le> int (length corpus)"
  show "\<exists>t. train_char_lm corpus order = Inr t"
  proof (cases "0 \<le> order")
    case True
    then show ?thesis by (simp add: train_char_lm_nonneg)
  next
    case False
    then show ?thesis using long by (intro train_char_lm_negative_ok) simp_all
  qed
next
  assume "int (length corpus) < - order"
  then show "train_char_lm corpus order = Inl IndexError"
    by (rule train_char_lm_negative_fails)
qed

theorem train_char_lm_failure_witness:
  "train_char_lm '''' 3 = Inr [] \<and>
   train_char_lm ''ab'' (- 1)
     = Inr [(''a'', [(CHR ''b'', 1)]), ('''', [(CHR ''a'', 1/2), (CHR ''b'', 1/2)])] \<and>
   train_char_lm ''ab'' (- 3) = Inl IndexError"
proof -
  have long: "- 3 \<le> int (length '''')" by simp
  have short: "int (length ''ab'') < - (- 3)" by simp
  from train_char_lm_failure [of 3 "''''"] long
  obtain t where "train_char_lm '''' 3 = Inr t"
    by blast
  moreover have "train_char_lm '''' 3 = Inr []"
    by code_simp
  moreover have "train_char_lm ''ab'' (- 1)
     = Inr [(''a'', [(CHR ''b'', 1)]), ('''', [(CHR ''a'', 1/2), (CHR ''b'', 1/2)])]"
    by code_simp
  ultimately show ?thesis
    using train_char_lm_failure [of "- 3" "''ab''"] short by simp
qed

end
